theory Spec2Isabelle
  imports Main
begin

section \<open>Text\<close>

text \<open>
  A Python \<open>str\<close> is a sequence of Unicode code points; a code point is an \<open>int\<close>
  (what \<open>ord\<close> returns).  \<open>lit\<close> turns an ASCII literal of the source into that form.
\<close>

type_synonym str = "int list"

definition lit :: "string \<Rightarrow> str" where
  "lit s = map of_char s"

text \<open>
  The code points for which \<open>str.isspace\<close> holds.  Both the regular expression class
  \<open>\s\<close> (on \<open>str\<close> patterns) and \<open>str.strip()\<close> use exactly this set.
\<close>

definition is_space :: "int \<Rightarrow> bool" where
  "is_space c \<longleftrightarrow> c \<in> set [9, 10, 11, 12, 13, 28, 29, 30, 31, 32, 133, 160, 5760,
      8192, 8193, 8194, 8195, 8196, 8197, 8198, 8199, 8200, 8201, 8202,
      8232, 8233, 8239, 8287, 12288]"

text \<open>\<open>s.strip()\<close>: leading and trailing whitespace removed.\<close>

definition strip :: "str \<Rightarrow> str" where
  "strip s = rev (dropWhile is_space (rev (dropWhile is_space s)))"

text \<open>\<open>re.sub(r'\s+', ' ', text)\<close>: every maximal run of whitespace becomes one space.\<close>

function sub_ws :: "str \<Rightarrow> str" where
  "sub_ws [] = []"
| "sub_ws (c # cs) =
     (if is_space c then 32 # sub_ws (dropWhile is_space cs) else c # sub_ws cs)"
  by pat_completeness auto
termination
  by (relation "measure length") (auto simp: length_dropWhile_le less_Suc_eq_le)

text \<open>
  \<open>clean_text\<close>.  \<open>unicodedata.normalize("NFKC", _)\<close> is driven by the Unicode character
  database, which is no part of the repository: the normalisation function is a parameter.
\<close>

definition clean_text :: "(str \<Rightarrow> str) \<Rightarrow> str \<Rightarrow> str" where
  "clean_text nfkc text = strip (sub_ws (nfkc text))"

text \<open>\<open>sep.join(xs)\<close>.\<close>

fun join :: "str \<Rightarrow> str list \<Rightarrow> str" where
  "join sep [] = []"
| "join sep [x] = x"
| "join sep (x # y # ys) = x @ sep @ join sep (y # ys)"

text \<open>\<open>s.startswith(p)\<close> and \<open>p in s\<close>.\<close>

fun startswith :: "str \<Rightarrow> str \<Rightarrow> bool" where
  "startswith s [] = True"
| "startswith [] (p # ps) = False"
| "startswith (c # cs) (p # ps) = (if c = p then startswith cs ps else False)"

fun str_in :: "str \<Rightarrow> str \<Rightarrow> bool" where
  "str_in p [] = (p = [])"
| "str_in p (c # cs) = (if startswith (c # cs) p then True else str_in p cs)"

subsection \<open>The two regular expressions\<close>

text \<open>
  The patterns of the source use literal characters, \<open>\s*\<close>, an optional literal and one
  character range, all under \<open>re.IGNORECASE\<close>.  \<open>ignorecase c\<close> lists the code points
  that a pattern character \<open>c\<close> matches under that flag: both cases of an ASCII letter,
  and the non-ASCII code points whose case folding is that letter.
\<close>

datatype atom = Ch int | WsStar | Opt int | Range int int

definition ignorecase :: "int \<Rightarrow> int list" where
  "ignorecase c =
     (let l = (if 65 \<le> c \<and> c \<le> 90 then c + 32 else c) in
      if 97 \<le> l \<and> l \<le> 122
      then [l - 32, l] @ (if l = 105 then [304, 305] else if l = 107 then [8490]
                          else if l = 115 then [383] else [])
      else [c])"

text \<open>
  \<open>re_prefix p s\<close>: some prefix of \<open>s\<close> matches the pattern \<open>p\<close> (\<open>pattern.match\<close>).
  The alternatives are tried in the order of a backtracking matcher: the longer match of
  \<open>\s*\<close> and of the optional character first.
\<close>

fun re_prefix :: "atom list \<Rightarrow> str \<Rightarrow> bool" where
  "re_prefix [] s = True"
| "re_prefix (Ch c # p) [] = False"
| "re_prefix (Ch c # p) (x # xs) = (if x \<in> set (ignorecase c) then re_prefix p xs else False)"
| "re_prefix (Range lo hi # p) [] = False"
| "re_prefix (Range lo hi # p) (x # xs) = (if lo \<le> x \<and> x \<le> hi then re_prefix p xs else False)"
| "re_prefix (Opt c # p) [] = re_prefix p []"
| "re_prefix (Opt c # p) (x # xs) =
     (if x = c then (if re_prefix p xs then True else re_prefix p (x # xs))
      else re_prefix p (x # xs))"
| "re_prefix (WsStar # p) [] = re_prefix p []"
| "re_prefix (WsStar # p) (x # xs) =
     (if is_space x then (if re_prefix (WsStar # p) xs then True else re_prefix p (x # xs))
      else re_prefix p (x # xs))"

text \<open>\<open>re_search p s\<close>: the pattern matches somewhere in \<open>s\<close> (\<open>pattern.search\<close>).\<close>

fun re_search :: "atom list \<Rightarrow> str \<Rightarrow> bool" where
  "re_search p [] = re_prefix p []"
| "re_search p (x # xs) = (if re_prefix p (x # xs) then True else re_search p xs)"

text \<open>\<open>Item\s*1A\.?\s*Risk\s*Factors\<close> and \<open>^Item\s*[2-6]\.?\<close>.\<close>

definition item_pattern :: "atom list" where
  "item_pattern = map Ch (lit ''Item'') @ [WsStar] @ map Ch (lit ''1A'') @ [Opt 46, WsStar]
     @ map Ch (lit ''Risk'') @ [WsStar] @ map Ch (lit ''Factors'')"

definition stop_pattern :: "atom list" where
  "stop_pattern = map Ch (lit ''Item'') @ [WsStar, Range 50 54, Opt 46]"

section \<open>The document tree\<close>

text \<open>
  What the HTML parser builds: a tag has a name, a dictionary of attributes and its
  contents; a leaf is a text node.  Attribute values are strings.  Comments and the
  contents of \<open>script\<close> and \<open>style\<close> elements, which the library keeps in string
  classes of their own, are not part of the model.
\<close>

datatype node = Tag str "(str \<times> str) list" "node list" | NavigableString str

text \<open>
  An element of the parsed document: the node, its parent and the parent's own ancestors
  (nearest first), each with its position in document order.  Position 0 is the
  \<open>BeautifulSoup\<close> object itself, the element at position \<open>i > 0\<close> is the \<open>i\<close>-th
  entry of the document-order list.
\<close>

record element =
  el_node :: node
  el_parent :: "nat \<times> node"
  el_grandparents :: "(nat \<times> node) list"

fun number_node :: "nat \<times> node \<Rightarrow> (nat \<times> node) list \<Rightarrow> nat \<Rightarrow> node \<Rightarrow> element list"
  and number_nodes :: "nat \<times> node \<Rightarrow> (nat \<times> node) list \<Rightarrow> nat \<Rightarrow> node list \<Rightarrow> element list"
where
  "number_node p gs i (NavigableString s) =
     [\<lparr>el_node = NavigableString s, el_parent = p, el_grandparents = gs\<rparr>]"
| "number_node p gs i (Tag n a cs) =
     \<lparr>el_node = Tag n a cs, el_parent = p, el_grandparents = gs\<rparr>
       # number_nodes (i, Tag n a cs) (p # gs) (Suc i) cs"
| "number_nodes p gs i [] = []"
| "number_nodes p gs i (c # cs) =
     (let es = number_node p gs i c in es @ number_nodes p gs (i + length es) cs)"

text \<open>
  \<open>bs4.BeautifulSoup(f, 'html.parser')\<close> applied to a file whose markup parses to the
  top-level nodes \<open>cs\<close>: the descendants of the document object in document order
  (the chain of \<open>next_element\<close>).
\<close>

type_synonym soup = "element list"

definition BeautifulSoup :: "node list \<Rightarrow> soup" where
  "BeautifulSoup cs = number_nodes (0, Tag (lit ''[document]'') [] cs) [] 1 cs"

text \<open>An element handle: the element together with everything after it in document order.\<close>

type_synonym cursor = "element \<times> element list"

subsection \<open>The library operations the extractor uses\<close>

fun is_tag :: "node \<Rightarrow> bool" where
  "is_tag (Tag n a cs) = True"
| "is_tag (NavigableString s) = False"

fun name_of :: "node \<Rightarrow> str option" where
  "name_of (Tag n a cs) = Some n"
| "name_of (NavigableString s) = None"

text \<open>\<open>tag.get(key)\<close>.\<close>

fun get :: "node \<Rightarrow> str \<Rightarrow> str option" where
  "get (Tag n a cs) key = map_of a key"
| "get (NavigableString s) key = None"

text \<open>The text nodes below a node, in document order.\<close>

fun all_strings :: "node \<Rightarrow> str list" where
  "all_strings (NavigableString s) = [s]"
| "all_strings (Tag n a cs) = concat (map all_strings cs)"

text \<open>
  \<open>get_text(strip=...)\<close>: the text nodes below the node, concatenated without a
  separator; with \<open>strip=True\<close> each is stripped first and dropped when empty.
\<close>

definition get_text :: "bool \<Rightarrow> node \<Rightarrow> str" where
  "get_text strp n =
     (if strp then concat (filter (\<lambda>s. s \<noteq> []) (map strip (all_strings n)))
      else concat (all_strings n))"

text \<open>
  \<open>tag.string\<close>: the text node of a tag whose contents are that single text node, or a
  single tag of which the same holds; \<open>None\<close> for any other contents.
\<close>

fun tag_string :: "node \<Rightarrow> str option" where
  "tag_string (NavigableString s) = Some s"
| "tag_string (Tag n a [c]) = tag_string c"
| "tag_string (Tag n a cs) = None"

text \<open>
  \<open>==\<close> on elements: equal names, equal attribute dictionaries and pairwise equal
  contents.  It compares structure, not identity.
\<close>

definition dict_eq :: "(str \<times> str) list \<Rightarrow> (str \<times> str) list \<Rightarrow> bool" where
  "dict_eq a b = list_all (\<lambda>k. map_of a k = map_of b k) (map fst a @ map fst b)"

fun tag_eq :: "node \<Rightarrow> node \<Rightarrow> bool" where
  "tag_eq (NavigableString s) (NavigableString t) = (s = t)"
| "tag_eq (Tag n a cs) (Tag m b ds) = (n = m \<and> dict_eq a b \<and> list_all2 tag_eq cs ds)"
| "tag_eq (NavigableString s) (Tag m b ds) = False"
| "tag_eq (Tag n a cs) (NavigableString t) = False"

text \<open>
  \<open>find\<close>: the first element, in document order, that the filter accepts, as a handle;
  \<open>find_next()\<close> without arguments: the first tag after the element (text nodes are
  only matched when a \<open>string\<close> filter is given).  A filter \<open>id=v\<close> accepts the tags
  whose \<open>id\<close> attribute is the string \<open>v\<close>; this is what the library does for a
  non-empty \<open>v\<close>, and the empty id, for which its versions differ, is not treated
  apart.
\<close>

fun find_from :: "(element \<Rightarrow> bool) \<Rightarrow> element list \<Rightarrow> cursor option" where
  "find_from P [] = None"
| "find_from P (e # es) = (if P e then Some (e, es) else find_from P es)"

definition find_next :: "cursor \<Rightarrow> cursor option" where
  "find_next cur = find_from (\<lambda>e. is_tag (el_node e)) (snd cur)"

definition named :: "str \<Rightarrow> element \<Rightarrow> bool" where
  "named n e \<longleftrightarrow> name_of (el_node e) = Some n"

section \<open>The extractor\<close>

definition max_elements :: nat where
  "max_elements = 5000"

text \<open>A value used as a condition: \<open>None\<close> and the empty string count as false.\<close>

fun truthy :: "str option \<Rightarrow> bool" where
  "truthy None = False"
| "truthy (Some s) = (s \<noteq> [])"

text \<open>
  What one pass through the body of the loop of \<open>extract_content_between_anchors\<close>
  appends for the element \<open>cur\<close>: for an element with a name, its \<open>get_text(strip=True)\<close>;
  for a text node, its stripped string; nothing when that text is empty.
\<close>

fun appended :: "node \<Rightarrow> str list" where
  "appended (Tag n a cs) =
     (if n \<noteq> [] then (let text = get_text True (Tag n a cs) in if text \<noteq> [] then [text] else [])
      else [])"
| "appended (NavigableString s) = (let text = strip s in if text \<noteq> [] then [text] else [])"

text \<open>
  The \<open>while\<close> loop of \<open>extract_content_between_anchors\<close>, as a function of its
  variables \<open>cur\<close>, \<open>count\<close> and \<open>content\<close>; it returns the final \<open>count\<close> and
  \<open>content\<close>.  The recursion is justified by the counter alone.
\<close>

function anchors_loop :: "str option \<Rightarrow> cursor option \<Rightarrow> nat \<Rightarrow> str list \<Rightarrow> nat \<times> str list" where
  "anchors_loop end_id cur count content =
     (case cur of
        None \<Rightarrow> (count, content)
      | Some c \<Rightarrow>
          if \<not> count < max_elements then (count, content)
          else if truthy end_id \<and> get (el_node (fst c)) (lit ''id'') = end_id then (count, content)
          else anchors_loop end_id (find_next c) (count + 1) (content @ appended (el_node (fst c))))"
  by pat_completeness auto
termination
  by (relation "measure (\<lambda>(end_id, cur, count, content). max_elements - count)") auto

definition extract_content_between_anchors :: "soup \<Rightarrow> str \<Rightarrow> str option \<Rightarrow> str option" where
  "extract_content_between_anchors soup start_id end_id =
     (case find_from (\<lambda>e. get (el_node e) (lit ''id'') = Some start_id) soup of
        None \<Rightarrow> None
      | Some start_elem \<Rightarrow>
          Some (join (lit '' '') (snd (anchors_loop end_id (find_next start_elem) 0 []))))"

section \<open>The locator that reads the table of contents\<close>

text \<open>Step 1 of \<open>extract_via_toc\<close>: the two searches for the link.\<close>

definition risk_factors_in :: "str option \<Rightarrow> bool" where
  "risk_factors_in t = (case t of None \<Rightarrow> False | Some s \<Rightarrow> s \<noteq> [] \<and> str_in (lit ''Risk Factors'') s)"

definition item_label_in :: "str option \<Rightarrow> bool" where
  "item_label_in t = (case t of None \<Rightarrow> False | Some s \<Rightarrow> re_search item_pattern s)"

definition find_toc_link :: "soup \<Rightarrow> cursor option" where
  "find_toc_link soup =
     (case find_from (\<lambda>e. named (lit ''a'') e \<and> risk_factors_in (tag_string (el_node e))) soup of
        Some link \<Rightarrow> Some link
      | None \<Rightarrow> find_from (\<lambda>e. named (lit ''a'') e \<and> item_label_in (tag_string (el_node e))) soup)"

text \<open>\<open>soup.find_all('a', href=True)\<close>.\<close>

definition toc_links :: "soup \<Rightarrow> element list" where
  "toc_links soup = filter (\<lambda>e. named (lit ''a'') e \<and> get (el_node e) (lit ''href'') \<noteq> None) soup"

text \<open>
  Step 2: the inner loop over \<open>toc_links[i + 1:]\<close>, and the outer loop that looks for the
  first entry equal to the link.
\<close>

fun look_ahead :: "str \<Rightarrow> element list \<Rightarrow> str option" where
  "look_ahead start_id [] = None"
| "look_ahead start_id (next_l # ls) =
     (case get (el_node next_l) (lit ''href'') of
        None \<Rightarrow> look_ahead start_id ls
      | Some next_href \<Rightarrow>
          if next_href \<noteq> [] \<and> startswith next_href (lit ''#'')
          then (let candidate_id = tl next_href in
                if candidate_id = start_id then look_ahead start_id ls else Some candidate_id)
          else look_ahead start_id ls)"

fun find_end_id :: "node \<Rightarrow> str \<Rightarrow> element list \<Rightarrow> str option" where
  "find_end_id link start_id [] = None"
| "find_end_id link start_id (l # ls) =
     (if tag_eq (el_node l) link then look_ahead start_id ls else find_end_id link start_id ls)"

text \<open>\<open>f"TOC extraction (End anchor: {end_id})"\<close>.\<close>

definition toc_label :: "str option \<Rightarrow> str" where
  "toc_label end_id =
     lit ''TOC extraction (End anchor: '' @ (case end_id of None \<Rightarrow> lit ''None'' | Some e \<Rightarrow> e) @ lit '')''"

definition extract_via_toc :: "soup \<Rightarrow> str option \<times> str" where
  "extract_via_toc soup =
     (case find_toc_link soup of
        None \<Rightarrow> (None, lit ''No TOC link found'')
      | Some link \<Rightarrow>
          (case get (el_node (fst link)) (lit ''href'') of
             None \<Rightarrow> (None, lit ''TOC link has no internal href'')
           | Some href \<Rightarrow>
               if href = [] \<or> \<not> startswith href (lit ''#'')
               then (None, lit ''TOC link has no internal href'')
               else (let start_id = tl href;
                         end_id = find_end_id (el_node (fst link)) start_id (toc_links soup)
                     in (extract_content_between_anchors soup start_id end_id, toc_label end_id))))"

section \<open>The locator that searches for the header\<close>

text \<open>\<open>soup.find_all(string=pattern)\<close>: the text nodes in which the pattern is found.\<close>

definition header_matches :: "soup \<Rightarrow> element list" where
  "header_matches soup =
     filter (\<lambda>e. case el_node e of NavigableString s \<Rightarrow> re_search item_pattern s | Tag n a cs \<Rightarrow> False) soup"

text \<open>
  The loop over the matches.  \<open>parent.find_parent('a')\<close> looks at the ancestors of the
  parent.  The result is the accepted parent with its position.
\<close>

fun find_candidate :: "(str \<Rightarrow> str) \<Rightarrow> element list \<Rightarrow> (nat \<times> node) option" where
  "find_candidate nfkc [] = None"
| "find_candidate nfkc (m # ms) =
     (let parent = el_parent m in
      if name_of (snd parent) = Some (lit ''a'')
         \<or> list_ex (\<lambda>g. name_of (snd g) = Some (lit ''a'')) (el_grandparents m)
      then find_candidate nfkc ms
      else if length (clean_text nfkc (get_text False (snd parent))) < 100 then Some parent
      else find_candidate nfkc ms)"

text \<open>The \<open>while\<close> loop of \<open>extract_via_regex\<close>; it returns the final \<open>count\<close> and \<open>content\<close>.\<close>

function regex_loop :: "cursor option \<Rightarrow> nat \<Rightarrow> str list \<Rightarrow> nat \<times> str list" where
  "regex_loop cur count content =
     (case cur of
        None \<Rightarrow> (count, content)
      | Some c \<Rightarrow>
          if \<not> count < 3000 then (count, content)
          else (let text = get_text True (el_node (fst c)) in
                if re_prefix stop_pattern text \<and> length text < 100 then (count, content)
                else regex_loop (find_next c) (count + 1) (content @ (if text \<noteq> [] then [text] else []))))"
  by pat_completeness auto
termination
  by (relation "measure (\<lambda>(cur, count, content). 3000 - count)") auto

text \<open>
  \<open>candidate.find_next()\<close>: the first tag after the candidate, which stands at position
  \<open>i\<close>, so that the elements after it are those from the \<open>i\<close>-th entry of the list on.
  The \<open>BeautifulSoup\<close> object itself, at position 0, is the enclosing node of a text at
  the top level of the document; it has no next element, so \<open>find_next()\<close> on it is
  \<open>None\<close> and the loop is not entered.
\<close>

definition extract_via_regex :: "(str \<Rightarrow> str) \<Rightarrow> soup \<Rightarrow> str option \<times> str" where
  "extract_via_regex nfkc soup =
     (case find_candidate nfkc (header_matches soup) of
        None \<Rightarrow> (None, lit ''Regex: Header not found'')
      | Some candidate \<Rightarrow>
          (Some (join (lit '' '')
             (snd (regex_loop
                    (if fst candidate = 0 then None
                     else find_from (\<lambda>e. is_tag (el_node e)) (drop (fst candidate) soup))
                    0 []))),
           lit ''Regex extraction''))"

section \<open>The driver\<close>

record row =
  accessionNumber :: str
  ticker :: str
  saved_path :: "str option"

definition OUTPUT_DIR :: str where
  "OUTPUT_DIR = lit ''sec_10q/risk_factors''"

definition SENTINEL :: str where
  "SENTINEL = lit ''SECTION_NOT_FOUND_OR_REFERENCE_ONLY''"

text \<open>
  The file system as \<open>process_filing\<close> sees it: a path is absent (\<open>None\<close>), or reading
  and parsing it raises an exception with a message (\<open>Inl\<close>), or yields the top-level
  nodes of the parsed markup (\<open>Inr\<close>).  The result is the returned message and the
  files written, each with its path and content.
\<close>

type_synonym files = "str \<Rightarrow> (str + node list) option"

definition process_filing :: "(str \<Rightarrow> str) \<Rightarrow> files \<Rightarrow> row \<Rightarrow> str \<times> (str \<times> str) list" where
  "process_filing nfkc fs r =
     (case saved_path r of
        None \<Rightarrow> (lit ''Skipped (No path)'', [])
      | Some rel_path \<Rightarrow>
          if rel_path = [] then (lit ''Skipped (No path)'', [])
          else (case fs rel_path of
             None \<Rightarrow> (lit ''Skipped (File not found: '' @ rel_path @ lit '')'', [])
           | Some (Inl e) \<Rightarrow> (lit ''Error reading HTML: '' @ e, [])
           | Some (Inr markup) \<Rightarrow>
               (let soup = BeautifulSoup markup;
                    (text, method) = extract_via_toc soup;
                    (text, method) = (if \<not> truthy text then extract_via_regex nfkc soup else (text, method));
                    out_file = OUTPUT_DIR @ lit ''/'' @ accessionNumber r @ lit ''.txt'';
                    (text, status) = (case text of
                        None \<Rightarrow> (SENTINEL, lit ''Not Found'')
                      | Some t \<Rightarrow> if t = [] then (SENTINEL, lit ''Not Found'') else (t, lit ''Extracted''))
                in (status @ lit '' ('' @ method @ lit '')'', [(out_file, clean_text nfkc text)]))))"

section \<open>Definitions used in the statements and proofs\<close>

text \<open>
  A string is tidy when its only whitespace is the single space and no space is followed
  by whitespace: the shape of every result of \<open>sub_ws\<close>.
\<close>

fun tidy :: "str \<Rightarrow> bool" where
  "tidy [] = True"
| "tidy [c] = (is_space c \<longrightarrow> c = 32)"
| "tidy (c # d # cs) = ((is_space c \<longrightarrow> c = 32 \<and> \<not> is_space d) \<and> tidy (d # cs))"

text \<open>
  A fragment of NFKC, used to instantiate the normalisation function: the space
  characters whose compatibility decomposition is the single space, mapped to it.
\<close>

definition compat_space :: "int \<Rightarrow> int" where
  "compat_space c = (if c \<in> set [160, 8192, 8193, 8194, 8195, 8196, 8197, 8198, 8199, 8200,
      8201, 8202, 8239, 8287, 12288] then 32 else c)"

definition compat_spaces :: "str \<Rightarrow> str" where
  "compat_spaces s = map compat_space s"

text \<open>
  The nodes that the walk of \<open>extract_content_between_anchors\<close> passes when it starts
  after an element whose successors in document order are \<open>es\<close>: the tags, up to the
  first one that carries the end id.  \<open>regex_walk_nodes\<close> is the same for the walk of
  \<open>extract_via_regex\<close>, which ends at the first short text that begins like a later item;
  \<open>taken\<close> is what that walk appends for a node.
\<close>

definition tag_el :: "element \<Rightarrow> bool" where
  "tag_el e = is_tag (el_node e)"

definition at_end :: "str option \<Rightarrow> node \<Rightarrow> bool" where
  "at_end end_id n \<longleftrightarrow> truthy end_id \<and> get n (lit ''id'') = end_id"

definition walk_nodes :: "str option \<Rightarrow> element list \<Rightarrow> node list" where
  "walk_nodes end_id es = takeWhile (\<lambda>n. \<not> at_end end_id n) (filter is_tag (map el_node es))"

definition at_stop :: "node \<Rightarrow> bool" where
  "at_stop n \<longleftrightarrow> re_prefix stop_pattern (get_text True n) \<and> length (get_text True n) < 100"

definition regex_walk_nodes :: "element list \<Rightarrow> node list" where
  "regex_walk_nodes es = takeWhile (\<lambda>n. \<not> at_stop n) (filter is_tag (map el_node es))"

definition taken :: "node \<Rightarrow> str list" where
  "taken n = (let text = get_text True n in if text \<noteq> [] then [text] else [])"

text \<open>The nodes of a tree in document order.\<close>

fun preorder :: "node \<Rightarrow> node list" where
  "preorder (NavigableString s) = [NavigableString s]"
| "preorder (Tag n a cs) = Tag n a cs # concat (map preorder cs)"

text \<open>
  A document with one text node, nested in two tags, between a start and an end anchor:
  \<open><a id="s"></a><div><p>Risk</p></div><a id="e"></a>\<close>.
\<close>

definition doc_nested :: "node list" where
  "doc_nested = [Tag (lit ''a'') [(lit ''id'', lit ''s'')] [],
                 Tag (lit ''div'') [] [Tag (lit ''p'') [] [NavigableString (lit ''Risk'')]],
                 Tag (lit ''a'') [(lit ''id'', lit ''e'')] []]"

text \<open>
  A document beyond both ceilings: a start anchor, a header and 5001 paragraphs,
  \<open><a id="s"></a><h2>Item 1A. Risk Factors</h2><p>x</p> ... <p>x</p>\<close>.
\<close>

definition par :: node where
  "par = Tag (lit ''p'') [] [NavigableString (lit ''x'')]"

definition pars :: "node list" where
  "pars = replicate 5001 par"

definition header :: node where
  "header = Tag (lit ''h2'') [] [NavigableString (lit ''Item 1A. Risk Factors'')]"

definition doc_long :: "node list" where
  "doc_long = Tag (lit ''a'') [(lit ''id'', lit ''s'')] [] # header # pars"

text \<open>
  A document whose header is a text at the top level, not enclosed in any tag:
  \<open>Item 1A. Risk Factors<p>a</p>\<close>.
\<close>

definition doc_top_text :: "node list" where
  "doc_top_text = [NavigableString (lit ''Item 1A. Risk Factors''),
                   Tag (lit ''p'') [] [NavigableString (lit ''a'')]]"

text \<open>
  The claim about the end anchor, in its own words: the target of a link with an internal
  href, and the first such target, among the elements \<open>es\<close> after the matched link in
  document order, that differs from the start id.
\<close>

definition internal_target :: "element \<Rightarrow> str option" where
  "internal_target e =
     (if named (lit ''a'') e
      then (case get (el_node e) (lit ''href'') of
              None \<Rightarrow> None
            | Some h \<Rightarrow> if h \<noteq> [] \<and> startswith h (lit ''#'') then Some (tl h) else None)
      else None)"

definition first_distinct_target :: "str \<Rightarrow> element list \<Rightarrow> str option" where
  "first_distinct_target start_id es =
     (case filter (\<lambda>t. t \<noteq> start_id) (List.map_filter internal_target es) of
        [] \<Rightarrow> None
      | t # ts \<Rightarrow> Some t)"

text \<open>
  A filing with a table of contents: the link to the section, a page-number link to the
  same anchor and the link to the next item, then the two anchors with their text.
\<close>

definition doc_toc :: "node list" where
  "doc_toc =
     [Tag (lit ''div'') []
        [Tag (lit ''a'') [(lit ''href'', lit ''#riskfactors'')] [NavigableString (lit ''Item 1A. Risk Factors'')],
         Tag (lit ''a'') [(lit ''href'', lit ''#riskfactors'')] [NavigableString (lit ''12'')],
         Tag (lit ''a'') [(lit ''href'', lit ''#unregisteredsales'')] [NavigableString (lit ''Item 2. Unregistered Sales'')]],
      Tag (lit ''div'') [(lit ''id'', lit ''riskfactors'')] [],
      Tag (lit ''p'') [] [NavigableString (lit ''Our business faces risks including X, Y, Z.'')],
      Tag (lit ''div'') [(lit ''id'', lit ''unregisteredsales'')] [],
      Tag (lit ''p'') [] [NavigableString (lit ''None.'')]]"

text \<open>
  A link whose text is split by markup:
  \<open><a href="#rf"><b>Item 1A.</b> Risk Factors</a>\<close>.
\<close>

definition link_mixed :: node where
  "link_mixed = Tag (lit ''a'') [(lit ''href'', lit ''#rf'')]
     [Tag (lit ''b'') [] [NavigableString (lit ''Item 1A.'')], NavigableString (lit '' Risk Factors'')]"

text \<open>
  Steps 3 to 5 of \<open>process_filing\<close> in two parts: the span and label that are chosen
  from the two locators, and what is returned and written for them.
\<close>

definition out_file :: "row \<Rightarrow> str" where
  "out_file r = OUTPUT_DIR @ lit ''/'' @ accessionNumber r @ lit ''.txt''"

definition outcome :: "(str \<Rightarrow> str) \<Rightarrow> row \<Rightarrow> str option \<times> str \<Rightarrow> str \<times> (str \<times> str) list" where
  "outcome nfkc r span =
     (case fst span of
        None \<Rightarrow> (lit ''Not Found'' @ lit '' ('' @ snd span @ lit '')'', [(out_file r, clean_text nfkc SENTINEL)])
      | Some t \<Rightarrow>
          if t = [] then (lit ''Not Found'' @ lit '' ('' @ snd span @ lit '')'', [(out_file r, clean_text nfkc SENTINEL)])
          else (lit ''Extracted'' @ lit '' ('' @ snd span @ lit '')'', [(out_file r, clean_text nfkc t)]))"

definition chosen_span :: "(str \<Rightarrow> str) \<Rightarrow> soup \<Rightarrow> str option \<times> str" where
  "chosen_span nfkc soup =
     (if truthy (fst (extract_via_toc soup)) then extract_via_toc soup else extract_via_regex nfkc soup)"

text \<open>
  What step 1 of \<open>extract_via_toc\<close> tests on a link: its \<open>.string\<close> contains the
  phrase, or the item label is found in it.
\<close>

definition toc_text :: "element \<Rightarrow> bool" where
  "toc_text e \<longleftrightarrow> named (lit ''a'') e
     \<and> (risk_factors_in (tag_string (el_node e)) \<or> item_label_in (tag_string (el_node e)))"

text \<open>
  A record of the index, a file system with one parsed file, and a filing whose contents
  link points to an id that is nowhere in the document.
\<close>

definition row1 :: row where
  "row1 = \<lparr>accessionNumber = lit ''0000320193-22-000007'', ticker = lit ''AAPL'',
            saved_path = Some (lit ''fixtures/aapl_10q.htm'')\<rparr>"

definition one_file :: "node list \<Rightarrow> files" where
  "one_file markup = (\<lambda>p. if p = lit ''fixtures/aapl_10q.htm'' then Some (Inr markup) else None)"

definition doc_dangling :: "node list" where
  "doc_dangling =
     [Tag (lit ''a'') [(lit ''href'', lit ''#missing'')] [NavigableString (lit ''Risk Factors'')],
      Tag (lit ''h2'') [] [NavigableString (lit ''Item 1A. Risk Factors'')],
      Tag (lit ''p'') [] [NavigableString (lit ''Our business faces risks.'')]]"

text \<open>
  The two filters of \<open>extract_via_regex\<close> on a matching text node: its enclosing node
  is a link or lies inside one; the normalised text of the enclosing node is shorter than
  100 characters.
\<close>

definition in_link :: "element \<Rightarrow> bool" where
  "in_link m \<longleftrightarrow> name_of (snd (el_parent m)) = Some (lit ''a'')
     \<or> list_ex (\<lambda>g. name_of (snd g) = Some (lit ''a'')) (el_grandparents m)"

definition header_like :: "(str \<Rightarrow> str) \<Rightarrow> element \<Rightarrow> bool" where
  "header_like nfkc m \<longleftrightarrow> length (clean_text nfkc (get_text False (snd (el_parent m)))) < 100"

text \<open>
  The header text twice: in a link of the table of contents and as a header of its own.
\<close>

definition doc_twice :: "node list" where
  "doc_twice =
     [Tag (lit ''div'') []
        [Tag (lit ''a'') [(lit ''href'', lit ''#rf'')] [NavigableString (lit ''Item 1A. Risk Factors'')]],
      Tag (lit ''h2'') [(lit ''id'', lit ''rf'')] [NavigableString (lit ''Item 1A. Risk Factors'')],
      Tag (lit ''p'') [] [NavigableString (lit ''Our business faces risks.'')],
      Tag (lit ''h2'') [] [NavigableString (lit ''Item 2. Unregistered Sales'')],
      Tag (lit ''p'') [] [NavigableString (lit ''None.'')]]"



section \<open>Whitespace normalisation\<close>

lemma is_space_32: "is_space 32"
  by (simp add: is_space_def)

lemma tidy_Cons: "tidy (c # cs) \<longleftrightarrow> (is_space c \<longrightarrow> c = 32 \<and> (cs = [] \<or> \<not> is_space (hd cs))) \<and> tidy cs"
  by (cases cs) auto

lemma hd_sub_ws: "cs \<noteq> [] \<Longrightarrow> is_space (hd (sub_ws cs)) = is_space (hd cs)"
  by (cases cs) (auto simp: is_space_32)

lemma sub_ws_Nil_iff: "sub_ws cs = [] \<longleftrightarrow> cs = []"
  by (cases cs) auto

lemma hd_dropWhile_space: "dropWhile is_space cs \<noteq> [] \<Longrightarrow> \<not> is_space (hd (dropWhile is_space cs))"
  using hd_dropWhile by blast

lemma tidy_sub_ws: "tidy (sub_ws s)"
proof (induction s rule: sub_ws.induct)
  case 1
  show ?case by simp
next
  case (2 c cs)
  show ?case
  proof (cases "is_space c")
    case True
    then have "tidy (sub_ws (dropWhile is_space cs))" using 2 by simp
    moreover have "sub_ws (dropWhile is_space cs) = [] \<or> \<not> is_space (hd (sub_ws (dropWhile is_space cs)))"
    proof (cases "dropWhile is_space cs = []")
      case True
      show ?thesis unfolding True by simp
    next
      case False
      show ?thesis using hd_sub_ws [OF False] hd_dropWhile_space [OF False] by blast
    qed
    ultimately show ?thesis using True by (simp add: tidy_Cons)
  next
    case False
    then show ?thesis using 2 by (simp add: tidy_Cons)
  qed
qed

lemma sub_ws_tidy: "tidy s \<Longrightarrow> sub_ws s = s"
proof (induction s rule: tidy.induct)
  case 1 show ?case by simp
next
  case (2 c) then show ?case by auto
next
  case (3 c d cs)
  then show ?case by auto
qed

lemma tidy_dropWhile: "tidy s \<Longrightarrow> tidy (dropWhile P s)"
  by (induction s) (auto simp: tidy_Cons)

lemma tidy_append_left: "tidy (xs @ ys) \<Longrightarrow> tidy xs"
proof (induction xs)
  case Nil show ?case by simp
next
  case (Cons x xs)
  then show ?case by (cases xs) (auto simp: tidy_Cons)
qed

lemma rev_dropWhile_rev_prefix: "\<exists>zs. s = rev (dropWhile P (rev s)) @ zs"
proof -
  have "rev s = takeWhile P (rev s) @ dropWhile P (rev s)" by simp
  then have "s = rev (dropWhile P (rev s)) @ rev (takeWhile P (rev s))"
    by (metis rev_append rev_rev_ident)
  then show ?thesis by blast
qed

lemma tidy_strip: "tidy s \<Longrightarrow> tidy (strip s)"
proof -
  assume "tidy s"
  then have t: "tidy (dropWhile is_space s)" by (rule tidy_dropWhile)
  obtain zs where "dropWhile is_space s = strip s @ zs"
    unfolding strip_def using rev_dropWhile_rev_prefix by blast
  with t show ?thesis by (metis tidy_append_left)
qed

lemma strip_unchanged: "(s \<noteq> [] \<longrightarrow> \<not> is_space (hd s) \<and> \<not> is_space (last s)) \<Longrightarrow> strip s = s"
proof (cases "s = []")
  case True then show ?thesis by (simp add: strip_def)
next
  case False
  assume "s \<noteq> [] \<longrightarrow> \<not> is_space (hd s) \<and> \<not> is_space (last s)"
  with False have h: "\<not> is_space (hd s)" and l: "\<not> is_space (last s)" by auto
  from h False have "dropWhile is_space s = s" by (cases s) auto
  moreover from l False have "dropWhile is_space (rev s) = rev s" by (cases "rev s") (auto simp: last_rev hd_rev)
  ultimately show ?thesis by (simp add: strip_def)
qed

lemma strip_ends: "strip s \<noteq> [] \<Longrightarrow> \<not> is_space (hd (strip s)) \<and> \<not> is_space (last (strip s))"
proof -
  assume ne: "strip s \<noteq> []"
  let ?a = "dropWhile is_space s"
  let ?b = "dropWhile is_space (rev ?a)"
  have sb: "strip s = rev ?b" by (simp add: strip_def)
  with ne have bne: "?b \<noteq> []" by simp
  then have "\<not> is_space (hd ?b)" by (rule hd_dropWhile_space)
  then have l: "\<not> is_space (last (strip s))" using bne sb by (simp add: last_rev)
  obtain zs where z: "?a = strip s @ zs" unfolding strip_def using rev_dropWhile_rev_prefix by blast
  with ne have ane: "?a \<noteq> []" by auto
  then have "\<not> is_space (hd ?a)" by (rule hd_dropWhile_space)
  moreover have "hd ?a = hd (strip s)" using z ne by (metis hd_append2)
  ultimately show ?thesis using l by simp
qed

lemma strip_strip: "strip (strip s) = strip s"
  by (rule strip_unchanged) (use strip_ends in blast)

lemma collapse_idem: "strip (sub_ws (strip (sub_ws s))) = strip (sub_ws s)"
proof -
  have "tidy (strip (sub_ws s))" by (simp add: tidy_strip tidy_sub_ws)
  then have "sub_ws (strip (sub_ws s)) = strip (sub_ws s)" by (rule sub_ws_tidy)
  then show ?thesis by (simp add: strip_strip)
qed

lemma set_sub_ws: "set (sub_ws s) \<subseteq> insert 32 (set s)"
proof (induction s rule: sub_ws.induct)
  case 1 show ?case by simp
next
  case (2 c cs)
  show ?case
  proof (cases "is_space c")
    case True
    have "set (dropWhile is_space cs) \<subseteq> set cs"
      using set_dropWhileD by fastforce
    then show ?thesis using 2 True by auto
  next
    case False then show ?thesis using 2 by auto
  qed
qed

lemma set_strip: "set (strip s) \<subseteq> set s"
proof -
  have "set (dropWhile is_space (rev (dropWhile is_space s))) \<subseteq> set (rev (dropWhile is_space s))"
    using set_dropWhileD by fastforce
  then have "set (strip s) \<subseteq> set (dropWhile is_space s)"
    by (simp add: strip_def)
  also have "\<dots> \<subseteq> set s"
    using set_dropWhileD by fastforce
  finally show ?thesis .
qed

lemma compat_space_32: "compat_space 32 = 32"
  by (simp add: compat_space_def)

lemma compat_space_cases: "compat_space c = c \<or> compat_space c = 32"
  unfolding compat_space_def by (cases "c \<in> set [160, 8192, 8193, 8194, 8195, 8196, 8197, 8198, 8199, 8200,
      8201, 8202, 8239, 8287, 12288]") (simp_all only: if_True if_False simp_thms)

lemma compat_space_idem: "compat_space (compat_space c) = compat_space c"
  using compat_space_cases [of c] compat_space_32 by auto

lemma compat_spaces_idem: "compat_spaces (compat_spaces x) = compat_spaces x"
  by (simp add: compat_spaces_def compat_space_idem)

lemma compat_spaces_fixed: "compat_spaces x = x \<longleftrightarrow> (\<forall>c\<in>set x. compat_space c = c)"
  by (induction x) (simp_all add: compat_spaces_def)

lemma compat_spaces_stable:
  assumes "compat_spaces x = x"
  shows "compat_spaces (strip (sub_ws x)) = strip (sub_ws x)"
proof -
  have "set (strip (sub_ws x)) \<subseteq> insert 32 (set x)"
    using set_strip set_sub_ws by blast
  then show ?thesis using assms compat_space_32 unfolding compat_spaces_fixed by blast
qed

text \<open>
  C7.  \<open>clean_text\<close> is idempotent: normalising a normalised text changes nothing.
  The Unicode normalisation is a parameter; the two facts about NFKC that the proof uses
  are that it is idempotent and that collapsing the whitespace of a text in normal form
  gives a text in normal form.
\<close>

theorem clean_text_idempotent:
  assumes idem: "\<forall>x. nfkc (nfkc x) = nfkc x"
    and stable: "\<forall>x. nfkc x = x \<longrightarrow> nfkc (strip (sub_ws x)) = strip (sub_ws x)"
  shows "clean_text nfkc (clean_text nfkc x) = clean_text nfkc x"
proof -
  have "nfkc (strip (sub_ws (nfkc x))) = strip (sub_ws (nfkc x))"
    using idem stable by blast
  then show ?thesis by (simp add: clean_text_def collapse_idem)
qed

theorem clean_text_idempotent_witness:
  "clean_text compat_spaces (clean_text compat_spaces [32, 160, 82, 105, 115, 107, 10, 8195, 70, 97, 99, 116, 111, 114, 115, 9])
     = clean_text compat_spaces [32, 160, 82, 105, 115, 107, 10, 8195, 70, 97, 99, 116, 111, 114, 115, 9]
   \<and> clean_text compat_spaces [32, 160, 82, 105, 115, 107, 10, 8195, 70, 97, 99, 116, 111, 114, 115, 9] = lit ''Risk Factors''"
proof -
  have 1: "\<forall>x. compat_spaces (compat_spaces x) = compat_spaces x"
    by (simp add: compat_spaces_idem)
  have 2: "\<forall>x. compat_spaces x = x \<longrightarrow> compat_spaces (strip (sub_ws x)) = strip (sub_ws x)"
    by (simp add: compat_spaces_stable)
  have 3: "clean_text compat_spaces [32, 160, 82, 105, 115, 107, 10, 8195, 70, 97, 99, 116, 111, 114, 115, 9] = lit ''Risk Factors''"
    by (simp add: clean_text_def compat_spaces_def compat_space_def strip_def is_space_def lit_def)
  show ?thesis
    using clean_text_idempotent [OF 1 2, of "[32, 160, 82, 105, 115, 107, 10, 8195, 70, 97, 99, 116, 111, 114, 115, 9]"] 3
    by (rule conjI)
qed

section \<open>The two walks\<close>

declare anchors_loop.simps [simp del] regex_loop.simps [simp del]

text \<open>What \<open>find\<close> returns.\<close>

lemma find_from_None: "find_from P es = None \<longleftrightarrow> (\<forall>e\<in>set es. \<not> P e)"
  by (induction es) auto

lemma find_from_Some:
  "find_from P es = Some (e, rest) \<Longrightarrow> \<exists>pre. es = pre @ e # rest \<and> P e \<and> (\<forall>x\<in>set pre. \<not> P x)"
proof (induction es)
  case Nil
  then show ?case by simp
next
  case (Cons x xs)
  show ?case
  proof (cases "P x")
    case True
    with Cons.prems have "x = e" "xs = rest" by simp_all
    with True show ?thesis by (intro exI [of _ "[]"]) simp
  next
    case False
    with Cons obtain pre where "xs = pre @ e # rest" "P e" "\<forall>y\<in>set pre. \<not> P y" by auto
    with False show ?thesis by (intro exI [of _ "x # pre"]) simp
  qed
qed

text \<open>Both loops stop at their ceiling, whatever the successors of an element are.\<close>

lemma anchors_loop_count: "fst (anchors_loop end_id cur count content) \<le> max count max_elements"
proof (induction end_id cur count content rule: anchors_loop.induct)
  case (1 end_id cur count content)
  show ?case
  proof (cases cur)
    case None
    then show ?thesis by (simp add: anchors_loop.simps)
  next
    case (Some c)
    show ?thesis
    proof (cases "count < max_elements \<and> \<not> (truthy end_id \<and> get (el_node (fst c)) (lit ''id'') = end_id)")
      case True
      then have "fst (anchors_loop end_id (find_next c) (count + 1) (content @ appended (el_node (fst c))))
                   \<le> max (count + 1) max_elements"
        using 1 Some by blast
      moreover have "anchors_loop end_id cur count content
                   = anchors_loop end_id (find_next c) (count + 1) (content @ appended (el_node (fst c)))"
        using True Some by (subst anchors_loop.simps) auto
      ultimately show ?thesis using True by simp
    next
      case False
      then have "anchors_loop end_id cur count content = (count, content)"
        using Some by (subst anchors_loop.simps) auto
      then show ?thesis by simp
    qed
  qed
qed

lemma regex_loop_count: "fst (regex_loop cur count content) \<le> max count 3000"
proof (induction cur count content rule: regex_loop.induct)
  case (1 cur count content)
  show ?case
  proof (cases cur)
    case None
    then show ?thesis by (simp add: regex_loop.simps)
  next
    case (Some c)
    let ?text = "get_text True (el_node (fst c))"
    show ?thesis
    proof (cases "count < 3000 \<and> \<not> (re_prefix stop_pattern ?text \<and> length ?text < 100)")
      case True
      then have "fst (regex_loop (find_next c) (count + 1) (content @ (if ?text \<noteq> [] then [?text] else [])))
                   \<le> max (count + 1) 3000"
        using 1 [OF Some _ refl] by blast
      moreover have "regex_loop cur count content
                   = regex_loop (find_next c) (count + 1) (content @ (if ?text \<noteq> [] then [?text] else []))"
        using True Some by (subst regex_loop.simps) (auto simp: Let_def)
      ultimately show ?thesis using True by simp
    next
      case False
      then have "regex_loop cur count content = (count, content)"
        using Some by (subst regex_loop.simps) (auto simp: Let_def)
      then show ?thesis by simp
    qed
  qed
qed

text \<open>The loops in closed form.\<close>

lemma anchors_loop_closed:
  "anchors_loop end_id (find_from tag_el es) count content =
     (count + length (take (max_elements - count) (walk_nodes end_id es)),
      content @ concat (map appended (take (max_elements - count) (walk_nodes end_id es))))"
proof (induction es arbitrary: count content)
  case Nil
  show ?case by (simp add: anchors_loop.simps walk_nodes_def)
next
  case (Cons e es)
  show ?case
  proof (cases "tag_el e")
    case False
    then show ?thesis using Cons [of count content] by (simp add: walk_nodes_def tag_el_def)
  next
    case tag: True
    then have cur: "find_from tag_el (e # es) = Some (e, es)" by simp
    have nxt: "find_next (e, es) = find_from tag_el es"
      by (simp add: find_next_def tag_el_def [abs_def])
    show ?thesis
    proof (cases "count < max_elements")
      case False
      then show ?thesis unfolding cur by (subst anchors_loop.simps) simp
    next
      case lt: True
      show ?thesis
      proof (cases "at_end end_id (el_node e)")
        case True
        then have "walk_nodes end_id (e # es) = []" using tag by (simp add: walk_nodes_def tag_el_def)
        moreover have "anchors_loop end_id (Some (e, es)) count content = (count, content)"
          using True by (subst anchors_loop.simps) (simp add: at_end_def)
        ultimately show ?thesis unfolding cur by simp
      next
        case False
        then have w: "walk_nodes end_id (e # es) = el_node e # walk_nodes end_id es"
          using tag by (simp add: walk_nodes_def tag_el_def)
        have "anchors_loop end_id (Some (e, es)) count content
              = anchors_loop end_id (find_from tag_el es) (count + 1) (content @ appended (el_node e))"
          using False lt by (subst anchors_loop.simps) (auto simp: at_end_def nxt)
        moreover have "max_elements - count = Suc (max_elements - (count + 1))" using lt by simp
        ultimately show ?thesis using Cons [of "count + 1" "content @ appended (el_node e)"]
          unfolding cur by (simp add: w)
      qed
    qed
  qed
qed

lemma regex_loop_closed:
  "regex_loop (find_from tag_el es) count content =
     (count + length (take (3000 - count) (regex_walk_nodes es)),
      content @ concat (map taken (take (3000 - count) (regex_walk_nodes es))))"
proof (induction es arbitrary: count content)
  case Nil
  show ?case by (simp add: regex_loop.simps regex_walk_nodes_def)
next
  case (Cons e es)
  show ?case
  proof (cases "tag_el e")
    case False
    then show ?thesis using Cons [of count content] by (simp add: regex_walk_nodes_def tag_el_def)
  next
    case tag: True
    then have cur: "find_from tag_el (e # es) = Some (e, es)" by simp
    have nxt: "find_next (e, es) = find_from tag_el es"
      by (simp add: find_next_def tag_el_def [abs_def])
    show ?thesis
    proof (cases "count < 3000")
      case False
      then show ?thesis unfolding cur by (subst regex_loop.simps) simp
    next
      case lt: True
      show ?thesis
      proof (cases "at_stop (el_node e)")
        case True
        then have "regex_walk_nodes (e # es) = []" using tag by (simp add: regex_walk_nodes_def tag_el_def)
        moreover have "regex_loop (Some (e, es)) count content = (count, content)"
          using True by (subst regex_loop.simps) (simp add: at_stop_def Let_def)
        ultimately show ?thesis unfolding cur by simp
      next
        case False
        then have w: "regex_walk_nodes (e # es) = el_node e # regex_walk_nodes es"
          using tag by (simp add: regex_walk_nodes_def tag_el_def)
        have "regex_loop (Some (e, es)) count content
              = regex_loop (find_from tag_el es) (count + 1) (content @ taken (el_node e))"
          using False lt by (subst regex_loop.simps) (auto simp: at_stop_def nxt Let_def taken_def)
        moreover have "3000 - count = Suc (3000 - (count + 1))" using lt by simp
        ultimately show ?thesis using Cons [of "count + 1" "content @ taken (el_node e)"]
          unfolding cur by (simp add: w)
      qed
    qed
  qed
qed

lemma map_el_node_number:
  "map el_node (number_node p gs i n) = preorder n"
  "map el_node (number_nodes p gs i cs) = concat (map preorder cs)"
  by (induction p gs i n and p gs i cs rule: number_node_number_nodes.induct) (simp_all add: Let_def)

lemma extract_closed:
  assumes "find_from (\<lambda>x. get (el_node x) (lit ''id'') = Some start_id) soup = Some (start, rest)"
  shows "extract_content_between_anchors soup start_id end_id
         = Some (join (lit '' '') (concat (map appended (take 5000 (walk_nodes end_id rest)))))"
proof -
  have "find_next (start, rest) = find_from tag_el rest"
    by (simp add: find_next_def tag_el_def [abs_def])
  then show ?thesis
    using assms anchors_loop_closed [of end_id rest 0 "[]"]
    by (simp add: extract_content_between_anchors_def max_elements_def)
qed

lemma soup_nested:
  "BeautifulSoup doc_nested =
     [\<lparr>el_node = Tag (lit ''a'') [(lit ''id'', lit ''s'')] [], el_parent = (0, Tag (lit ''[document]'') [] doc_nested), el_grandparents = []\<rparr>,
      \<lparr>el_node = Tag (lit ''div'') [] [Tag (lit ''p'') [] [NavigableString (lit ''Risk'')]], el_parent = (0, Tag (lit ''[document]'') [] doc_nested), el_grandparents = []\<rparr>,
      \<lparr>el_node = Tag (lit ''p'') [] [NavigableString (lit ''Risk'')],
        el_parent = (2, Tag (lit ''div'') [] [Tag (lit ''p'') [] [NavigableString (lit ''Risk'')]]),
        el_grandparents = [(0, Tag (lit ''[document]'') [] doc_nested)]\<rparr>,
      \<lparr>el_node = NavigableString (lit ''Risk''),
        el_parent = (3, Tag (lit ''p'') [] [NavigableString (lit ''Risk'')]),
        el_grandparents = [(2, Tag (lit ''div'') [] [Tag (lit ''p'') [] [NavigableString (lit ''Risk'')]]), (0, Tag (lit ''[document]'') [] doc_nested)]\<rparr>,
      \<lparr>el_node = Tag (lit ''a'') [(lit ''id'', lit ''e'')] [], el_parent = (0, Tag (lit ''[document]'') [] doc_nested), el_grandparents = []\<rparr>]"
  unfolding BeautifulSoup_def by (subst (2) doc_nested_def) (simp add: Let_def)

lemmas eval_defs = BeautifulSoup_def Let_def lit_def extract_content_between_anchors_def
  find_next_def max_elements_def is_space_def strip_def get_text_def

text \<open>
  C1.  Each text fragment between the two anchors is to be appended exactly once.  The
  code does not do so: the loop takes \<open>get_text(strip=True)\<close>, the text of the whole
  subtree, of every tag that \<open>find_next()\<close> yields, and the descendants of a tag are
  yielded after it.  The document \<open>doc_nested\<close> has the single text node \<open>Risk\<close>
  between its anchors, inside a \<open>p\<close> inside a \<open>div\<close>; the section returned holds the
  fragment twice, once for each of the two tags.
\<close>

theorem extractor_nested_text_twice:
  "extract_content_between_anchors (BeautifulSoup doc_nested) (lit ''s'') (Some (lit ''e''))
     = Some (lit ''Risk Risk'')
   \<and> concat (map all_strings doc_nested) = [lit ''Risk'']"
  by (simp add: eval_defs doc_nested_def anchors_loop.simps)

text \<open>
  C8.  The extractor returns \<open>None\<close> exactly when no element of the tree has the start
  id; when the start anchor is found it returns the space-joined accumulator of the loop.
\<close>

theorem extractor_null_iff_no_start:
  "(extract_content_between_anchors soup start_id end_id = None
      \<longleftrightarrow> (\<forall>x\<in>set soup. get (el_node x) (lit ''id'') \<noteq> Some start_id))
   \<and> (\<forall>start. find_from (\<lambda>x. get (el_node x) (lit ''id'') = Some start_id) soup = Some start \<longrightarrow>
         extract_content_between_anchors soup start_id end_id
           = Some (join (lit '' '') (snd (anchors_loop end_id (find_next start) 0 []))))"
proof -
  have "extract_content_between_anchors soup start_id end_id = None
        \<longleftrightarrow> find_from (\<lambda>x. get (el_node x) (lit ''id'') = Some start_id) soup = None"
    by (simp add: extract_content_between_anchors_def split: option.splits)
  then show ?thesis
    by (simp add: find_from_None extract_content_between_anchors_def)
qed

theorem extractor_null_iff_no_start_witness:
  "extract_content_between_anchors (BeautifulSoup doc_nested) (lit ''nowhere'') (Some (lit ''e'')) = None
   \<and> map (\<lambda>x. get (el_node x) (lit ''id'')) (BeautifulSoup doc_nested)
       = [Some (lit ''s''), None, None, None, Some (lit ''e'')]
   \<and> extract_content_between_anchors (BeautifulSoup doc_nested) (lit ''e'') None = Some []"
proof -
  have 1: "\<forall>x\<in>set (BeautifulSoup doc_nested). get (el_node x) (lit ''id'') \<noteq> Some (lit ''nowhere'')"
    by (simp add: soup_nested) (simp add: lit_def)
  have 2: "find_from (\<lambda>x. get (el_node x) (lit ''id'') = Some (lit ''e'')) (BeautifulSoup doc_nested)
       = Some (\<lparr>el_node = Tag (lit ''a'') [(lit ''id'', lit ''e'')] [], el_parent = (0, Tag (lit ''[document]'') [] doc_nested), el_grandparents = []\<rparr>, [])"
    by (simp add: soup_nested) (simp add: lit_def)
  have 3: "anchors_loop None (find_next (\<lparr>el_node = Tag (lit ''a'') [(lit ''id'', lit ''e'')] [], el_parent = (0, Tag (lit ''[document]'') [] doc_nested), el_grandparents = []\<rparr>, [])) 0 [] = (0, [])"
    by (simp add: find_next_def anchors_loop.simps)
  from extractor_null_iff_no_start [of "BeautifulSoup doc_nested" "lit ''nowhere''" "Some (lit ''e'')"] 1
  have a: "extract_content_between_anchors (BeautifulSoup doc_nested) (lit ''nowhere'') (Some (lit ''e'')) = None"
    by blast
  from extractor_null_iff_no_start [of "BeautifulSoup doc_nested" "lit ''e''" None] 2
  have "extract_content_between_anchors (BeautifulSoup doc_nested) (lit ''e'') None
           = Some (join (lit '' '') (snd (anchors_loop None (find_next (\<lparr>el_node = Tag (lit ''a'') [(lit ''id'', lit ''e'')] [], el_parent = (0, Tag (lit ''[document]'') [] doc_nested), el_grandparents = []\<rparr>, [])) 0 [])))"
    by blast
  then have b: "extract_content_between_anchors (BeautifulSoup doc_nested) (lit ''e'') None = Some []"
    by (simp add: 3)
  have c: "map (\<lambda>x. get (el_node x) (lit ''id'')) (BeautifulSoup doc_nested)
       = [Some (lit ''s''), None, None, None, Some (lit ''e'')]"
    by (simp add: soup_nested)
  from a c b show ?thesis by blast
qed

lemma extract_via_regex_closed:
  assumes "find_candidate nfkc (header_matches soup) = Some (i, cand)" and "0 < i"
  shows "extract_via_regex nfkc soup
         = (Some (join (lit '' '') (concat (map taken (take 3000 (regex_walk_nodes (drop i soup)))))),
            lit ''Regex extraction'')"
  using assms regex_loop_closed [of "drop i soup" 0 "[]"]
  by (simp add: extract_via_regex_def tag_el_def [abs_def])

lemma extract_via_regex_root:
  assumes "find_candidate nfkc (header_matches soup) = Some (0, cand)"
  shows "extract_via_regex nfkc soup = (Some [], lit ''Regex extraction'')"
  using assms by (simp add: extract_via_regex_def regex_loop.simps)

text \<open>
  C2.  The walk of the extractor makes at most 5000 passes and the walk of the header
  search at most 3000, from any element; and when at least that many tags follow before
  an end is met, the result is the text of the first 5000 (3000) of them, not a failure.
  When the accepted header is a text at the top level of the document, the header search
  does not walk at all and returns the empty text.
\<close>

theorem traversal_ceiling:
  "fst (anchors_loop end_id cur 0 []) \<le> 5000
   \<and> fst (regex_loop cur 0 []) \<le> 3000
   \<and> (find_from (\<lambda>x. get (el_node x) (lit ''id'') = Some start_id) soup = Some (start, rest)
        \<and> 5000 \<le> length (walk_nodes end_id rest) \<longrightarrow>
      extract_content_between_anchors soup start_id end_id
        = Some (join (lit '' '') (concat (map appended (take 5000 (walk_nodes end_id rest))))))
   \<and> (find_candidate nfkc (header_matches soup) = Some (i, cand) \<and> 0 < i
        \<and> 3000 \<le> length (regex_walk_nodes (drop i soup)) \<longrightarrow>
      extract_via_regex nfkc soup
        = (Some (join (lit '' '') (concat (map taken (take 3000 (regex_walk_nodes (drop i soup)))))),
           lit ''Regex extraction''))
   \<and> (find_candidate nfkc (header_matches soup) = Some (0, cand) \<longrightarrow>
      extract_via_regex nfkc soup = (Some [], lit ''Regex extraction''))"
proof -
  have "fst (anchors_loop end_id cur 0 []) \<le> 5000"
    using anchors_loop_count [of end_id cur 0 "[]"] by (simp add: max_elements_def)
  moreover have "fst (regex_loop cur 0 []) \<le> 3000"
    using regex_loop_count [of cur 0 "[]"] by simp
  ultimately show ?thesis
    using extract_closed extract_via_regex_closed extract_via_regex_root by blast
qed

lemma tags_of_pars: "filter is_tag (concat (replicate n (preorder par))) = replicate n par"
  by (induction n) (simp_all add: par_def)

lemma nodes_of_pars: "set (concat (replicate n (preorder par))) \<subseteq> {par, NavigableString (lit ''x'')}"
  by (induction n) (auto simp: par_def)

lemma concat_replicate_single: "concat (replicate n [x]) = replicate n x"
  by (induction n) simp_all

lemma par_text: "get_text True par = lit ''x''"
  by (simp add: par_def get_text_def strip_def is_space_def lit_def)

lemma par_not_stop: "\<not> at_stop par"
  by (simp add: at_stop_def par_text) (simp add: lit_def stop_pattern_def ignorecase_def)

lemma par_appended: "appended par = [lit ''x'']"
  using par_text by (simp add: par_def lit_def)

lemma par_taken: "taken par = [lit ''x'']"
  by (simp add: taken_def par_text) (simp add: lit_def)

lemma header_label: "re_search item_pattern (lit ''Item 1A. Risk Factors'')"
  by (simp add: lit_def item_pattern_def ignorecase_def is_space_def)

lemma x_no_label: "\<not> re_search item_pattern (lit ''x'')"
  by (simp add: lit_def item_pattern_def ignorecase_def)

lemma header_short: "length (clean_text compat_spaces (get_text False header)) < 100"
  by (simp add: header_def get_text_def clean_text_def compat_spaces_def compat_space_def lit_def
      is_space_def strip_def)

lemma header_appended: "appended header = [lit ''Item 1A. Risk Factors'']"
  by (simp add: header_def get_text_def lit_def is_space_def strip_def)

theorem traversal_ceiling_witness:
  "5000 < length (filter is_tag (concat (map preorder doc_long)))
   \<and> extract_content_between_anchors (BeautifulSoup doc_long) (lit ''s'') None
       = Some (join (lit '' '') (lit ''Item 1A. Risk Factors'' # replicate 4999 (lit ''x'')))
   \<and> extract_via_regex compat_spaces (BeautifulSoup doc_long)
       = (Some (join (lit '' '') (replicate 3000 (lit ''x''))), lit ''Regex extraction'')
   \<and> extract_via_regex compat_spaces (BeautifulSoup doc_top_text)
       = (Some [], lit ''Regex extraction'')"
proof -
  let ?root = "(0, Tag (lit ''[document]'') [] doc_long)"
  let ?ea = "\<lparr>el_node = Tag (lit ''a'') [(lit ''id'', lit ''s'')] [], el_parent = ?root, el_grandparents = []\<rparr>"
  let ?eh = "\<lparr>el_node = header, el_parent = ?root, el_grandparents = []\<rparr>"
  let ?et = "\<lparr>el_node = NavigableString (lit ''Item 1A. Risk Factors''), el_parent = (2, header), el_grandparents = [?root]\<rparr>"
  let ?tail = "number_nodes ?root [] 4 pars"
  have soup: "BeautifulSoup doc_long = ?ea # ?eh # ?et # ?tail"
    unfolding BeautifulSoup_def by (subst (2) doc_long_def) (simp add: Let_def header_def eval_nat_numeral)
  have tail_nodes: "map el_node ?tail = concat (replicate 5001 (preorder par))"
    by (simp add: map_el_node_number pars_def)
  have tail_tags: "filter is_tag (map el_node ?tail) = replicate 5001 par"
    unfolding tail_nodes by (simp add: tags_of_pars)
  have n: "5000 < length (filter is_tag (concat (map preorder doc_long)))"
    by (simp add: doc_long_def header_def pars_def tags_of_pars)
  have start: "find_from (\<lambda>x. get (el_node x) (lit ''id'') = Some (lit ''s'')) (BeautifulSoup doc_long)
                = Some (?ea, ?eh # ?et # ?tail)"
    by (simp add: soup)
  have walk: "walk_nodes None (?eh # ?et # ?tail) = header # replicate 5001 par"
    by (simp add: walk_nodes_def at_end_def tail_tags) (simp add: header_def)
  have long1: "5000 \<le> length (walk_nodes None (?eh # ?et # ?tail))"
    by (simp add: walk)
  have text1: "concat (map appended (take 5000 (walk_nodes None (?eh # ?et # ?tail))))
                = lit ''Item 1A. Risk Factors'' # replicate 4999 (lit ''x'')"
    by (simp add: walk header_appended par_appended concat_replicate_single)
  have no_match: "filter (\<lambda>e. case el_node e of NavigableString s \<Rightarrow> re_search item_pattern s | Tag n a cs \<Rightarrow> False) ?tail = []"
  proof -
    have "\<forall>e\<in>set ?tail. el_node e \<in> {par, NavigableString (lit ''x'')}"
    proof
      fix e assume "e \<in> set ?tail"
      then have "el_node e \<in> set (map el_node ?tail)" by (simp only: set_map image_eqI)
      then show "el_node e \<in> {par, NavigableString (lit ''x'')}"
        unfolding tail_nodes using nodes_of_pars [of 5001] by blast
    qed
    then show ?thesis
      by (auto simp: filter_empty_conv par_def x_no_label)
  qed
  have matches: "header_matches (BeautifulSoup doc_long) = [?et]"
    unfolding header_matches_def soup using no_match by (simp add: header_label header_def)
  have cand: "find_candidate compat_spaces (header_matches (BeautifulSoup doc_long)) = Some (2, header)"
    unfolding matches using header_short by (simp add: header_def) (simp add: lit_def)
  have walk2: "regex_walk_nodes (drop 2 (BeautifulSoup doc_long)) = replicate 5001 par"
    by (simp add: soup regex_walk_nodes_def tail_tags par_not_stop)
  have long2: "3000 \<le> length (regex_walk_nodes (drop 2 (BeautifulSoup doc_long)))"
    by (simp add: walk2)
  have text2: "concat (map taken (take 3000 (regex_walk_nodes (drop 2 (BeautifulSoup doc_long)))))
                = replicate 3000 (lit ''x'')"
    by (simp add: walk2 par_taken concat_replicate_single)
  have top: "find_candidate compat_spaces (header_matches (BeautifulSoup doc_top_text))
              = Some (0, Tag (lit ''[document]'') [] doc_top_text)"
    by (simp add: header_matches_def BeautifulSoup_def Let_def doc_top_text_def item_pattern_def
        ignorecase_def is_space_def get_text_def clean_text_def compat_spaces_def compat_space_def
        strip_def lit_def)
  from traversal_ceiling [of None _ "lit ''s''" "BeautifulSoup doc_top_text" _ _
      compat_spaces _ "Tag (lit ''[document]'') [] doc_top_text"] top
  have root: "extract_via_regex compat_spaces (BeautifulSoup doc_top_text) = (Some [], lit ''Regex extraction'')"
    by blast
  have pos: "(0::nat) < 2" by simp
  from traversal_ceiling [of None _ "lit ''s''" "BeautifulSoup doc_long" ?ea "?eh # ?et # ?tail"
      compat_spaces 2 header] start long1 cand pos long2
  have "extract_content_between_anchors (BeautifulSoup doc_long) (lit ''s'') None
          = Some (join (lit '' '') (concat (map appended (take 5000 (walk_nodes None (?eh # ?et # ?tail))))))"
    and "extract_via_regex compat_spaces (BeautifulSoup doc_long)
          = (Some (join (lit '' '') (concat (map taken (take 3000 (regex_walk_nodes (drop 2 (BeautifulSoup doc_long))))))),
             lit ''Regex extraction'')"
    by blast+
  then show ?thesis using n root by (simp only: text1 text2 simp_thms)
qed

section \<open>The end anchor and the link of the table of contents\<close>

text \<open>Equality of elements is reflexive and preserves the name and \<open>.string\<close>.\<close>

lemma dict_eq_refl: "dict_eq a a"
  by (simp add: dict_eq_def list_all_iff)

lemma tag_eq_refl: "tag_eq n n"
  by (induction n) (auto simp: dict_eq_refl list_all2_same)

lemma tag_eq_name: "tag_eq x y \<Longrightarrow> name_of x = name_of y"
  by (cases x; cases y) auto

lemma tag_eq_string: "tag_eq x y \<Longrightarrow> tag_string x = tag_string y"
proof (induction x arbitrary: y)
  case (NavigableString s)
  then show ?case by (cases y) auto
next
  case (Tag n a cs)
  then obtain m b ds where y: "y = Tag m b ds" by (cases y) auto
  with Tag.prems have all: "list_all2 tag_eq cs ds" by simp
  show ?case
  proof (cases cs)
    case Nil
    with all y show ?thesis by simp
  next
    case (Cons c cs')
    then obtain d ds' where ds: "ds = d # ds'" and cd: "tag_eq c d" and rest: "list_all2 tag_eq cs' ds'"
      using all by (auto simp: list_all2_Cons1)
    show ?thesis
    proof (cases cs')
      case Nil
      with rest have "ds' = []" by simp
      moreover have "tag_string c = tag_string d" using Tag.IH [of c d] cd Cons by simp
      ultimately show ?thesis using y Cons Nil ds by simp
    next
      case (Cons c2 cs2)
      with rest obtain d2 ds2 where "ds' = d2 # ds2" by (auto simp: list_all2_Cons1)
      with y Cons \<open>cs = c # cs'\<close> ds show ?thesis by simp
    qed
  qed
qed

lemma find_end_id_skip:
  assumes "\<forall>x\<in>set xs. \<not> tag_eq (el_node x) link" and "tag_eq (el_node l) link"
  shows "find_end_id link start_id (xs @ l # ys) = look_ahead start_id ys"
  using assms by (induction xs) auto

lemma look_ahead_spec:
  "look_ahead start_id (filter (\<lambda>e. named (lit ''a'') e \<and> get (el_node e) (lit ''href'') \<noteq> None) es)
     = first_distinct_target start_id es"
proof (induction es)
  case Nil
  show ?case by (simp add: first_distinct_target_def List.map_filter_simps)
next
  case (Cons e es)
  show ?case
  proof (cases "internal_target e")
    case None
    then have "first_distinct_target start_id (e # es) = first_distinct_target start_id es"
      by (simp add: first_distinct_target_def List.map_filter_simps)
    moreover have "look_ahead start_id (filter (\<lambda>e. named (lit ''a'') e \<and> get (el_node e) (lit ''href'') \<noteq> None) (e # es))
       = look_ahead start_id (filter (\<lambda>e. named (lit ''a'') e \<and> get (el_node e) (lit ''href'') \<noteq> None) es)"
      using None by (auto simp: internal_target_def split: option.splits if_splits)
    ultimately show ?thesis using Cons by simp
  next
    case (Some t)
    then have a: "named (lit ''a'') e"
      by (auto simp: internal_target_def split: option.splits if_splits)
    obtain href where href: "get (el_node e) (lit ''href'') = Some href" "href \<noteq> []" "startswith href (lit ''#'')" "tl href = t"
      using Some by (auto simp: internal_target_def split: option.splits if_splits)
    show ?thesis
    proof (cases "t = start_id")
      case True
      then have "first_distinct_target start_id (e # es) = first_distinct_target start_id es"
        using Some by (simp add: first_distinct_target_def List.map_filter_simps)
      moreover have "look_ahead start_id (filter (\<lambda>e. named (lit ''a'') e \<and> get (el_node e) (lit ''href'') \<noteq> None) (e # es))
       = look_ahead start_id (filter (\<lambda>e. named (lit ''a'') e \<and> get (el_node e) (lit ''href'') \<noteq> None) es)"
        using a href True by simp
      ultimately show ?thesis using Cons by simp
    next
      case False
      then have "first_distinct_target start_id (e # es) = Some t"
        using Some by (simp add: first_distinct_target_def List.map_filter_simps)
      moreover have "look_ahead start_id (filter (\<lambda>e. named (lit ''a'') e \<and> get (el_node e) (lit ''href'') \<noteq> None) (e # es)) = Some t"
        using a href False by simp
      ultimately show ?thesis by simp
    qed
  qed
qed

lemma first_distinct_target_distinct: "first_distinct_target start_id es \<noteq> Some start_id"
proof -
  have "\<forall>t\<in>set (filter (\<lambda>t. t \<noteq> start_id) (List.map_filter internal_target es)). t \<noteq> start_id"
    by simp
  then show ?thesis
    unfolding first_distinct_target_def
    by (cases "filter (\<lambda>t. t \<noteq> start_id) (List.map_filter internal_target es)") auto
qed

text \<open>
  The outer loop of \<open>extract_via_toc\<close> compares elements by structure.  No element before
  the matched link is equal to it: it would have matched the search itself.
\<close>

lemma find_from_tag_eq:
  assumes "find_from Q soup = Some (link, rest)"
    and inv: "\<And>x. tag_eq (el_node x) (el_node link) \<Longrightarrow> Q link \<Longrightarrow> Q x"
  shows "\<exists>pre. soup = pre @ link # rest \<and> Q link \<and> (\<forall>x\<in>set pre. \<not> tag_eq (el_node x) (el_node link))"
proof -
  obtain pre where "soup = pre @ link # rest" "Q link" "\<forall>x\<in>set pre. \<not> Q x"
    using find_from_Some [OF assms(1)] by blast
  then show ?thesis using inv by blast
qed

lemma find_toc_link_first:
  assumes "find_toc_link soup = Some (link, rest)"
  shows "\<exists>pre. soup = pre @ link # rest \<and> named (lit ''a'') link
            \<and> (\<forall>x\<in>set pre. \<not> tag_eq (el_node x) (el_node link))"
proof (cases "find_from (\<lambda>e. named (lit ''a'') e \<and> risk_factors_in (tag_string (el_node e))) soup")
  case (Some c)
  with assms have f: "find_from (\<lambda>e. named (lit ''a'') e \<and> risk_factors_in (tag_string (el_node e))) soup = Some (link, rest)"
    by (simp add: find_toc_link_def)
  have "\<And>x. tag_eq (el_node x) (el_node link)
          \<Longrightarrow> named (lit ''a'') link \<and> risk_factors_in (tag_string (el_node link))
          \<Longrightarrow> named (lit ''a'') x \<and> risk_factors_in (tag_string (el_node x))"
    using tag_eq_name tag_eq_string by (simp add: named_def)
  from find_from_tag_eq [OF f this] show ?thesis by blast
next
  case None
  with assms have f: "find_from (\<lambda>e. named (lit ''a'') e \<and> item_label_in (tag_string (el_node e))) soup = Some (link, rest)"
    by (simp add: find_toc_link_def)
  have "\<And>x. tag_eq (el_node x) (el_node link)
          \<Longrightarrow> named (lit ''a'') link \<and> item_label_in (tag_string (el_node link))
          \<Longrightarrow> named (lit ''a'') x \<and> item_label_in (tag_string (el_node x))"
    using tag_eq_name tag_eq_string by (simp add: named_def)
  from find_from_tag_eq [OF f this] show ?thesis by blast
qed

lemma toc_scan:
  assumes link: "find_toc_link soup = Some (link, rest)"
    and href: "get (el_node link) (lit ''href'') = Some href"
  shows "find_end_id (el_node link) start_id (toc_links soup) = first_distinct_target start_id rest"
proof -
  obtain pre where soup: "soup = pre @ link # rest" and a: "named (lit ''a'') link"
    and pre: "\<forall>x\<in>set pre. \<not> tag_eq (el_node x) (el_node link)"
    using find_toc_link_first [OF link] by blast
  let ?L = "\<lambda>e. named (lit ''a'') e \<and> get (el_node e) (lit ''href'') \<noteq> None"
  have "toc_links soup = filter ?L pre @ link # filter ?L rest"
    using a href by (simp add: toc_links_def soup)
  moreover have "\<forall>x\<in>set (filter ?L pre). \<not> tag_eq (el_node x) (el_node link)"
    using pre by simp
  ultimately have "find_end_id (el_node link) start_id (toc_links soup) = look_ahead start_id (filter ?L rest)"
    using find_end_id_skip [of "filter ?L pre" "el_node link" link] tag_eq_refl by simp
  then show ?thesis by (simp only: look_ahead_spec)
qed

text \<open>
  C3.  When the link is matched and its href is internal, the end id that the loops
  select is the target of the first link after the matched link, in document order, whose
  href is internal and whose target differs from the start id.  It is never the start id,
  and it is unset exactly when there is no such link.
\<close>

theorem toc_end_is_first_distinct_target:
  assumes "find_toc_link soup = Some (link, rest)"
    and "get (el_node link) (lit ''href'') = Some href"
    and "href \<noteq> []" and "startswith href (lit ''#'')"
  shows "find_end_id (el_node link) (tl href) (toc_links soup) = first_distinct_target (tl href) rest
    \<and> extract_via_toc soup
        = (extract_content_between_anchors soup (tl href) (first_distinct_target (tl href) rest),
           toc_label (first_distinct_target (tl href) rest))
    \<and> find_end_id (el_node link) (tl href) (toc_links soup) \<noteq> Some (tl href)
    \<and> (find_end_id (el_node link) (tl href) (toc_links soup) = None
         \<longleftrightarrow> filter (\<lambda>t. t \<noteq> tl href) (List.map_filter internal_target rest) = [])"
proof -
  have scan: "find_end_id (el_node link) (tl href) (toc_links soup) = first_distinct_target (tl href) rest"
    using assms(1,2) by (rule toc_scan)
  have "extract_via_toc soup
        = (extract_content_between_anchors soup (tl href) (first_distinct_target (tl href) rest),
           toc_label (first_distinct_target (tl href) rest))"
    using assms scan by (simp add: extract_via_toc_def Let_def)
  moreover have "first_distinct_target (tl href) rest = None
         \<longleftrightarrow> filter (\<lambda>t. t \<noteq> tl href) (List.map_filter internal_target rest) = []"
    by (simp add: first_distinct_target_def split: list.splits)
  ultimately show ?thesis
    using scan first_distinct_target_distinct [of "tl href" rest] by simp
qed

lemmas toc_eval = BeautifulSoup_def Let_def find_toc_link_def named_def risk_factors_in_def
  item_label_in_def toc_links_def

theorem toc_end_is_first_distinct_target_witness:
  "find_end_id (Tag (lit ''a'') [(lit ''href'', lit ''#riskfactors'')] [NavigableString (lit ''Item 1A. Risk Factors'')])
     (lit ''riskfactors'') (toc_links (BeautifulSoup doc_toc)) = Some (lit ''unregisteredsales'')
   \<and> extract_via_toc (BeautifulSoup doc_toc)
       = (Some (lit ''Our business faces risks including X, Y, Z.''),
          lit ''TOC extraction (End anchor: unregisteredsales)'')"
proof -
  let ?S = "BeautifulSoup doc_toc"
  have 1: "find_toc_link ?S = Some (?S ! 1, drop 2 ?S)"
    by (simp add: toc_eval doc_toc_def lit_def)
  have 2: "get (el_node (?S ! 1)) (lit ''href'') = Some (lit ''#riskfactors'')"
    by (simp add: toc_eval doc_toc_def)
  have 3: "lit ''#riskfactors'' \<noteq> []" "startswith (lit ''#riskfactors'') (lit ''#'')"
    by (simp_all add: lit_def)
  have 4: "el_node (?S ! 1) = Tag (lit ''a'') [(lit ''href'', lit ''#riskfactors'')] [NavigableString (lit ''Item 1A. Risk Factors'')]"
    by (simp add: toc_eval doc_toc_def)
  have 5: "tl (lit ''#riskfactors'') = lit ''riskfactors''"
    by (simp add: lit_def)
  have 6: "first_distinct_target (lit ''riskfactors'') (drop 2 ?S) = Some (lit ''unregisteredsales'')"
    by (simp add: toc_eval doc_toc_def first_distinct_target_def internal_target_def
        List.map_filter_simps lit_def)
  have 7: "extract_content_between_anchors ?S (lit ''riskfactors'') (Some (lit ''unregisteredsales''))
            = Some (lit ''Our business faces risks including X, Y, Z.'')"
    by (simp add: eval_defs doc_toc_def anchors_loop.simps)
  have 8: "toc_label (Some (lit ''unregisteredsales'')) = lit ''TOC extraction (End anchor: unregisteredsales)''"
    by (simp add: toc_label_def lit_def)
  show ?thesis
    using toc_end_is_first_distinct_target [OF 1 2 3] unfolding 4 5 6 7 8 by simp
qed

lemma process_filing_parsed:
  assumes "saved_path r = Some p" and "p \<noteq> []" and "fs p = Some (Inr markup)"
  shows "process_filing nfkc fs r = outcome nfkc r (chosen_span nfkc (BeautifulSoup markup))"
  using assms
  by (simp add: process_filing_def outcome_def chosen_span_def out_file_def Let_def
      split: prod.splits option.splits)

lemma toc_label_not_failure:
  "toc_label e \<noteq> lit ''No TOC link found''" "toc_label e \<noteq> lit ''TOC link has no internal href''"
  by (simp_all add: toc_label_def lit_def)

lemma no_href_label: "lit ''TOC link has no internal href'' \<noteq> lit ''No TOC link found''"
  by (simp add: lit_def)

lemma find_toc_link_None: "find_toc_link soup = None \<longleftrightarrow> (\<forall>e\<in>set soup. \<not> toc_text e)"
proof -
  have "find_toc_link soup = None \<longleftrightarrow>
          find_from (\<lambda>e. named (lit ''a'') e \<and> risk_factors_in (tag_string (el_node e))) soup = None
        \<and> find_from (\<lambda>e. named (lit ''a'') e \<and> item_label_in (tag_string (el_node e))) soup = None"
    by (simp add: find_toc_link_def split: option.splits)
  then show ?thesis
    unfolding find_from_None toc_text_def by blast
qed

lemma find_toc_link_Some: "find_toc_link soup = Some (link, rest) \<Longrightarrow> toc_text link"
  by (auto simp: find_toc_link_def toc_text_def split: option.splits dest: find_from_Some)

lemma extract_via_toc_no_link:
  "extract_via_toc soup = (None, lit ''No TOC link found'') \<longleftrightarrow> find_toc_link soup = None"
  using toc_label_not_failure(1) no_href_label
  by (auto simp: extract_via_toc_def Let_def split: option.splits)

text \<open>
  C4 (as the code has it).  Step 1 looks at the \<open>.string\<close> of a link, which exists only
  when the link holds a single text node (possibly wrapped in single tags).  The outcome
  \<open>(None, "No TOC link found")\<close> is returned exactly when no link has a \<open>.string\<close>
  that contains the phrase or the item label; otherwise such a link is found.
\<close>

theorem toc_link_found_by_string:
  "(extract_via_toc soup = (None, lit ''No TOC link found'') \<longleftrightarrow> (\<forall>e\<in>set soup. \<not> toc_text e))
   \<and> ((\<exists>e\<in>set soup. toc_text e) \<longrightarrow>
        (\<exists>link rest. find_toc_link soup = Some (link, rest) \<and> toc_text link))"
proof -
  have "(\<exists>e\<in>set soup. toc_text e) \<longrightarrow> (\<exists>link rest. find_toc_link soup = Some (link, rest) \<and> toc_text link)"
  proof
    assume "\<exists>e\<in>set soup. toc_text e"
    then have "find_toc_link soup \<noteq> None" by (simp add: find_toc_link_None)
    then obtain link rest where "find_toc_link soup = Some (link, rest)" by auto
    then show "\<exists>link rest. find_toc_link soup = Some (link, rest) \<and> toc_text link"
      using find_toc_link_Some by blast
  qed
  then show ?thesis by (simp add: extract_via_toc_no_link find_toc_link_None)
qed

text \<open>
  C4 as stated fails: the visible text of \<open>link_mixed\<close> contains the phrase, but
  the link has two children and so no \<open>.string\<close>, and no link is found.
\<close>

theorem toc_link_found_by_string_counterexample:
  "name_of link_mixed = Some (lit ''a'')
   \<and> get_text False link_mixed = lit ''Item 1A. Risk Factors''
   \<and> str_in (lit ''Risk Factors'') (get_text False link_mixed)
   \<and> extract_via_toc (BeautifulSoup [link_mixed]) = (None, lit ''No TOC link found'')"
  by (simp add: link_mixed_def get_text_def extract_via_toc_def toc_eval lit_def)

theorem toc_link_found_by_string_witness:
  "extract_via_toc (BeautifulSoup doc_nested) = (None, lit ''No TOC link found'')
   \<and> find_toc_link (BeautifulSoup doc_toc) = Some (BeautifulSoup doc_toc ! 1, drop 2 (BeautifulSoup doc_toc))
   \<and> tag_string (el_node (BeautifulSoup doc_toc ! 1)) = Some (lit ''Item 1A. Risk Factors'')"
proof -
  have 1: "\<forall>e\<in>set (BeautifulSoup doc_nested). \<not> toc_text e"
    by (simp add: soup_nested) (simp add: toc_text_def named_def lit_def risk_factors_in_def item_label_in_def)
  have 2: "find_toc_link (BeautifulSoup doc_toc) = Some (BeautifulSoup doc_toc ! 1, drop 2 (BeautifulSoup doc_toc))"
    by (simp add: toc_eval doc_toc_def lit_def)
  have 3: "tag_string (el_node (BeautifulSoup doc_toc ! 1)) = Some (lit ''Item 1A. Risk Factors'')"
    by (simp add: toc_eval doc_toc_def)
  from toc_link_found_by_string [of "BeautifulSoup doc_nested"] 1
  have "extract_via_toc (BeautifulSoup doc_nested) = (None, lit ''No TOC link found'')" by blast
  with 2 3 show ?thesis by blast
qed

text \<open>
  C10.  When the matched link points to an id that no element of the tree has, the
  locator returns no span with the label \<open>TOC extraction (End anchor: ...)\<close>, which is
  neither of the two failure labels, and the driver goes on with the header search.
\<close>

theorem missing_start_anchor_falls_back:
  assumes "find_toc_link soup = Some (link, rest)"
    and "get (el_node link) (lit ''href'') = Some href"
    and "href \<noteq> []" and "startswith href (lit ''#'')"
    and "\<forall>x\<in>set soup. get (el_node x) (lit ''id'') \<noteq> Some (tl href)"
  shows "extract_via_toc soup = (None, toc_label (first_distinct_target (tl href) rest))
    \<and> snd (extract_via_toc soup) \<noteq> lit ''No TOC link found''
    \<and> snd (extract_via_toc soup) \<noteq> lit ''TOC link has no internal href''
    \<and> chosen_span nfkc soup = extract_via_regex nfkc soup
    \<and> (\<forall>fs r p markup. saved_path r = Some p \<and> p \<noteq> [] \<and> fs p = Some (Inr markup)
          \<and> BeautifulSoup markup = soup \<longrightarrow>
          process_filing nfkc fs r = outcome nfkc r (extract_via_regex nfkc soup))"
proof -
  have "find_from (\<lambda>x. get (el_node x) (lit ''id'') = Some (tl href)) soup = None"
    using assms(5) by (simp add: find_from_None)
  then have none: "extract_content_between_anchors soup (tl href) e = None" for e
    by (simp add: extract_content_between_anchors_def)
  have toc: "extract_via_toc soup = (None, toc_label (first_distinct_target (tl href) rest))"
    using assms(1-4) toc_scan [OF assms(1,2)] none by (simp add: extract_via_toc_def Let_def)
  then have ch: "chosen_span nfkc soup = extract_via_regex nfkc soup"
    by (simp add: chosen_span_def)
  show ?thesis
    using toc ch toc_label_not_failure process_filing_parsed by auto
qed

lemmas regex_eval = extract_via_regex_def header_matches_def regex_loop.simps item_pattern_def
  stop_pattern_def ignorecase_def clean_text_def compat_spaces_def compat_space_def

lemma row1_file: "saved_path row1 = Some (lit ''fixtures/aapl_10q.htm'')"
  "lit ''fixtures/aapl_10q.htm'' \<noteq> []"
  "one_file markup (lit ''fixtures/aapl_10q.htm'') = Some (Inr markup)"
  "out_file row1 = lit ''sec_10q/risk_factors/0000320193-22-000007.txt''"
  by (simp_all add: row1_def one_file_def out_file_def OUTPUT_DIR_def lit_def)

theorem missing_start_anchor_falls_back_witness:
  "extract_via_toc (BeautifulSoup doc_dangling) = (None, lit ''TOC extraction (End anchor: None)'')
   \<and> process_filing compat_spaces (one_file doc_dangling) row1
       = (lit ''Extracted (Regex extraction)'',
          [(lit ''sec_10q/risk_factors/0000320193-22-000007.txt'', lit ''Our business faces risks.'')])"
proof -
  let ?S = "BeautifulSoup doc_dangling"
  have 1: "find_toc_link ?S = Some (?S ! 0, drop 1 ?S)"
    by (simp add: toc_eval doc_dangling_def lit_def)
  have 2: "get (el_node (?S ! 0)) (lit ''href'') = Some (lit ''#missing'')"
    by (simp add: toc_eval doc_dangling_def)
  have 3: "lit ''#missing'' \<noteq> []" "startswith (lit ''#missing'') (lit ''#'')"
    by (simp_all add: lit_def)
  have 4: "\<forall>x\<in>set ?S. get (el_node x) (lit ''id'') \<noteq> Some (tl (lit ''#missing''))"
    by (simp add: toc_eval doc_dangling_def lit_def)
  have 5: "toc_label (first_distinct_target (tl (lit ''#missing'')) (drop 1 ?S))
            = lit ''TOC extraction (End anchor: None)''"
    by (simp add: toc_eval doc_dangling_def first_distinct_target_def internal_target_def
        List.map_filter_simps toc_label_def lit_def)
  have 6: "outcome compat_spaces row1 (extract_via_regex compat_spaces ?S)
            = (lit ''Extracted (Regex extraction)'',
               [(lit ''sec_10q/risk_factors/0000320193-22-000007.txt'', lit ''Our business faces risks.'')])"
    by (simp add: outcome_def row1_file regex_eval eval_defs doc_dangling_def)
  note main = missing_start_anchor_falls_back [OF 1 2 3 4, of compat_spaces]
  from main have a: "extract_via_toc ?S = (None, lit ''TOC extraction (End anchor: None)'')"
    unfolding 5 by blast
  from main row1_file(1,2) row1_file(3) [of doc_dangling]
  have "process_filing compat_spaces (one_file doc_dangling) row1
          = outcome compat_spaces row1 (extract_via_regex compat_spaces ?S)"
    by blast
  with a 6 show ?thesis by simp
qed

section \<open>The header candidate\<close>

lemma find_candidate_filter:
  "find_candidate nfkc ms =
     (case filter (\<lambda>m. \<not> in_link m \<and> header_like nfkc m) ms of
        [] \<Rightarrow> None
      | m # rest \<Rightarrow> Some (el_parent m))"
  by (induction ms) (simp_all add: in_link_def header_like_def Let_def)

text \<open>
  C5.  The accepted candidate is the enclosing node of the first match that is neither a
  link nor inside one and whose normalised enclosing text is shorter than 100 characters;
  when no match passes both filters the result is no span with the label
  \<open>Regex: Header not found\<close>.
\<close>

theorem regex_candidate_first_short_outside_links:
  "find_candidate nfkc (header_matches soup) =
     (case filter (\<lambda>m. \<not> in_link m \<and> header_like nfkc m) (header_matches soup) of
        [] \<Rightarrow> None
      | m # rest \<Rightarrow> Some (el_parent m))
   \<and> (filter (\<lambda>m. \<not> in_link m \<and> header_like nfkc m) (header_matches soup) = [] \<longrightarrow>
        extract_via_regex nfkc soup = (None, lit ''Regex: Header not found''))
   \<and> (\<forall>c. find_candidate nfkc (header_matches soup) = Some c \<longrightarrow>
        (\<exists>pre m post. header_matches soup = pre @ m # post \<and> el_parent m = c
            \<and> \<not> in_link m \<and> header_like nfkc m
            \<and> (\<forall>x\<in>set pre. in_link x \<or> \<not> header_like nfkc x)))"
proof -
  let ?ok = "\<lambda>m. \<not> in_link m \<and> header_like nfkc m"
  have eq: "find_candidate nfkc (header_matches soup) =
     (case filter ?ok (header_matches soup) of [] \<Rightarrow> None | m # rest \<Rightarrow> Some (el_parent m))"
    by (rule find_candidate_filter)
  have none: "filter ?ok (header_matches soup) = [] \<longrightarrow>
        extract_via_regex nfkc soup = (None, lit ''Regex: Header not found'')"
    using eq by (simp add: extract_via_regex_def)
  have some: "\<exists>pre m post. header_matches soup = pre @ m # post \<and> el_parent m = c
            \<and> \<not> in_link m \<and> header_like nfkc m
            \<and> (\<forall>x\<in>set pre. in_link x \<or> \<not> header_like nfkc x)"
    if "find_candidate nfkc (header_matches soup) = Some c" for c
  proof -
    from that eq obtain m rest where f: "filter ?ok (header_matches soup) = m # rest" and c: "el_parent m = c"
      by (auto split: list.splits)
    from f obtain pre post where "header_matches soup = pre @ m # post" "\<forall>u\<in>set pre. \<not> ?ok u" "?ok m"
      unfolding filter_eq_Cons_iff by blast
    with c show ?thesis by blast
  qed
  from eq none some show ?thesis by blast
qed

theorem regex_candidate_first_short_outside_links_witness:
  "map (\<lambda>m. fst (el_parent m)) (header_matches (BeautifulSoup doc_twice)) = [2, 4]
   \<and> find_candidate compat_spaces (header_matches (BeautifulSoup doc_twice))
       = Some (4, Tag (lit ''h2'') [(lit ''id'', lit ''rf'')] [NavigableString (lit ''Item 1A. Risk Factors'')])
   \<and> extract_via_regex compat_spaces (BeautifulSoup doc_twice)
       = (Some (lit ''Our business faces risks.''), lit ''Regex extraction'')"
proof -
  let ?S = "BeautifulSoup doc_twice"
  have 1: "map (\<lambda>m. fst (el_parent m)) (header_matches ?S) = [2, 4]"
    by (simp add: regex_eval eval_defs doc_twice_def)
  have 2: "(case filter (\<lambda>m. \<not> in_link m \<and> header_like compat_spaces m) (header_matches ?S) of
              [] \<Rightarrow> None | m # rest \<Rightarrow> Some (el_parent m))
            = Some (4, Tag (lit ''h2'') [(lit ''id'', lit ''rf'')] [NavigableString (lit ''Item 1A. Risk Factors'')])"
    by (simp add: regex_eval eval_defs doc_twice_def in_link_def header_like_def)
  have 3: "extract_via_regex compat_spaces ?S = (Some (lit ''Our business faces risks.''), lit ''Regex extraction'')"
    by (simp add: regex_eval eval_defs doc_twice_def)
  from regex_candidate_first_short_outside_links [of compat_spaces ?S]
  have "find_candidate compat_spaces (header_matches ?S)
          = (case filter (\<lambda>m. \<not> in_link m \<and> header_like compat_spaces m) (header_matches ?S) of
              [] \<Rightarrow> None | m # rest \<Rightarrow> Some (el_parent m))"
    by blast
  with 1 2 3 show ?thesis by simp
qed

section \<open>The driver: what is written\<close>



























end
